theory Spec2Isabelle
  imports Main "HOL-Library.Word"
begin

unbundle bit_operations_syntax

section \<open>JavaScript numbers and typed arrays\<close>

text \<open>
  The module \<^verbatim>\<open>vs/editor/common/core/lineTokens.ts\<close> works on a \<^verbatim>\<open>Uint32Array\<close>
  holding two elements per token (end offset, metadata) and on the text of the line.
  Numbers that the code uses as indices and offsets are modelled as \<^typ>\<open>int\<close> (the
  integral values of a JavaScript number), array elements as 32-bit words, and a
  read that yields \<^verbatim>\<open>undefined\<close> as \<^const>\<open>None\<close>. A string is its sequence of
  UTF-16 code units.
\<close>

type_synonym uint32 = "32 word"
type_synonym jsstring = "16 word list"

text \<open>\<^verbatim>\<open>x << 1\<close>: the operand is taken to a signed 32-bit integer, and so is the result.\<close>

definition shl1 :: "int \<Rightarrow> int" where
  "shl1 x = signed_take_bit 31 (2 * x)"

text \<open>\<^verbatim>\<open>x >>> 1\<close>: the operand is taken to an unsigned 32-bit integer first.\<close>

definition ushr1 :: "int \<Rightarrow> int" where
  "ushr1 x = take_bit 32 x div 2"

text \<open>\<^verbatim>\<open>a[k]\<close> on a \<^verbatim>\<open>Uint32Array\<close>: \<^verbatim>\<open>undefined\<close> outside \<open>0 .. length - 1\<close>.\<close>

definition arr_get :: "uint32 list \<Rightarrow> int \<Rightarrow> int option" where
  "arr_get a k = (if 0 \<le> k \<and> k < int (length a) then Some (uint (a ! nat k)) else None)"

text \<open>
  Storing into a \<^verbatim>\<open>Uint32Array\<close> converts the value to an unsigned 32-bit integer
  (\<^verbatim>\<open>undefined\<close> becomes 0).
\<close>

fun to_uint32 :: "int option \<Rightarrow> uint32" where
  "to_uint32 None = 0"
| "to_uint32 (Some v) = word_of_int v"

text \<open>\<^verbatim>\<open>a[k] = v\<close> on a \<^verbatim>\<open>Uint32Array\<close>: a store outside the array is ignored.\<close>

definition arr_set :: "uint32 list \<Rightarrow> int \<Rightarrow> int option \<Rightarrow> uint32 list" where
  "arr_set a k v = (if 0 \<le> k \<and> k < int (length a) then a[nat k := to_uint32 v] else a)"

section \<open>The token buffer\<close>

text \<open>
  The four private fields of \<^verbatim>\<open>class LineTokens\<close>; the constructor derives the token
  count and the text length from its two arguments.
\<close>

record LineTokens =
  lt_tokens :: "uint32 list"
  lt_tokensCount :: int
  lt_text :: jsstring
  lt_textLength :: int

definition new_LineTokens :: "uint32 list \<Rightarrow> jsstring \<Rightarrow> LineTokens" where
  "new_LineTokens tokens txt =
     \<lparr> lt_tokens = tokens,
       lt_tokensCount = ushr1 (int (length tokens)),
       lt_text = txt,
       lt_textLength = int (length txt) \<rparr>"

definition getLineContent :: "LineTokens \<Rightarrow> jsstring" where
  "getLineContent lt = lt_text lt"

definition getCount :: "LineTokens \<Rightarrow> int" where
  "getCount lt = lt_tokensCount lt"

definition getStartOffset :: "LineTokens \<Rightarrow> int \<Rightarrow> int option" where
  "getStartOffset lt tokenIndex =
     (if tokenIndex > 0 then arr_get (lt_tokens lt) (shl1 (tokenIndex - 1)) else Some 0)"

definition getEndOffset :: "LineTokens \<Rightarrow> int \<Rightarrow> int option" where
  "getEndOffset lt tokenIndex = arr_get (lt_tokens lt) (shl1 tokenIndex)"

text \<open>The metadata word that the per-token accessors decode: \<^verbatim>\<open>_tokens[(tokenIndex << 1) + 1]\<close>.\<close>

definition getMetadata :: "LineTokens \<Rightarrow> int \<Rightarrow> int option" where
  "getMetadata lt tokenIndex = arr_get (lt_tokens lt) (shl1 tokenIndex + 1)"

text \<open>
  \<^verbatim>\<open>equals\<close>: the loop runs over the indices of this buffer's array and compares
  each element with the element of the other array at the same index (a read past the
  end of the other array is \<^verbatim>\<open>undefined\<close>, which differs from every number).
\<close>

datatype IViewLineTokens = LineTokensObj LineTokens | OtherViewLineTokens

function equals_loop :: "uint32 list \<Rightarrow> uint32 list \<Rightarrow> int \<Rightarrow> int \<Rightarrow> bool" where
  "equals_loop this_tokens other_tokens i len =
     (if i < len then
        (if arr_get this_tokens i \<noteq> arr_get other_tokens i then False
         else equals_loop this_tokens other_tokens (i + 1) len)
      else True)"
  by pat_completeness auto
termination
  by (relation "measure (\<lambda>(a, b, i, len). nat (len - i))") auto

definition equals :: "LineTokens \<Rightarrow> IViewLineTokens \<Rightarrow> bool" where
  "equals this other =
     (case other of
        LineTokensObj other' \<Rightarrow>
          if lt_text this \<noteq> lt_text other' then False
          else if lt_tokensCount this \<noteq> lt_tokensCount other' then False
          else equals_loop (lt_tokens this) (lt_tokens other') 0 (int (length (lt_tokens this)))
      | OtherViewLineTokens \<Rightarrow> False)"

text \<open>
  \<^verbatim>\<open>convertToEndOffset\<close> overwrites the array it is given; the model returns the array
  after the call.
\<close>

function convertToEndOffset_loop :: "uint32 list \<Rightarrow> int \<Rightarrow> int \<Rightarrow> uint32 list" where
  "convertToEndOffset_loop tokens lastTokenIndex tokenIndex =
     (if tokenIndex < lastTokenIndex then
        convertToEndOffset_loop
          (arr_set tokens (shl1 tokenIndex) (arr_get tokens (shl1 (tokenIndex + 1))))
          lastTokenIndex (tokenIndex + 1)
      else tokens)"
  by pat_completeness auto
termination
  by (relation "measure (\<lambda>(tokens, lastTokenIndex, tokenIndex). nat (lastTokenIndex - tokenIndex))") auto

declare convertToEndOffset_loop.simps [simp del]

definition convertToEndOffset :: "uint32 list \<Rightarrow> int \<Rightarrow> uint32 list" where
  "convertToEndOffset tokens lineTextLength =
     (let tokenCount = ushr1 (int (length tokens));
          lastTokenIndex = tokenCount - 1;
          tokens' = convertToEndOffset_loop tokens lastTokenIndex 0
      in arr_set tokens' (shl1 lastTokenIndex) (Some lineTextLength))"

section \<open>The cursor\<close>

text \<open>
  A \<^verbatim>\<open>LineTokensIterator\<close> is a mutable object: \<^verbatim>\<open>prev\<close>, \<^verbatim>\<open>next\<close> and
  \<^verbatim>\<open>tokenAt\<close> with a destination overwrite its fields, and \<^verbatim>\<open>clone\<close> allocates a
  new one. The objects live in a store, a list indexed by reference; allocation appends.
  The buffer a cursor refers to is never written, so the cursor holds it by value.
  A reference handed to an operation is live: it is below the length of the store.
\<close>

record LineTokensIterator =
  it_source :: LineTokens
  it_tokenCount :: int
  it_tokenIndex :: int
  it_metadata :: "int option"
  it_startOffset :: "int option"
  it_endOffset :: "int option"

type_synonym ref = nat
type_synonym heap = "LineTokensIterator list"

definition hasPrev :: "LineTokensIterator \<Rightarrow> bool" where
  "hasPrev it = (it_tokenIndex it > 0)"

definition hasNext :: "LineTokensIterator \<Rightarrow> bool" where
  "hasNext it = (it_tokenIndex it + 1 < it_tokenCount it)"

definition Iterator_set ::
  "heap \<Rightarrow> ref \<Rightarrow> int \<Rightarrow> int option \<Rightarrow> int option \<Rightarrow> int option \<Rightarrow> heap" where
  "Iterator_set h this tokenIndex startOffset endOffset metadata =
     h[this := (h ! this)\<lparr> it_tokenIndex := tokenIndex, it_metadata := metadata,
                            it_startOffset := startOffset, it_endOffset := endOffset \<rparr>]"

definition new_LineTokensIterator ::
  "heap \<Rightarrow> LineTokens \<Rightarrow> int \<Rightarrow> int \<Rightarrow> int option \<Rightarrow> int option \<Rightarrow> int option \<Rightarrow> ref \<times> heap" where
  "new_LineTokensIterator h source tokenIndex tokenCount startOffset endOffset metadata =
     (length h,
      h @ [\<lparr> it_source = source, it_tokenCount = tokenCount, it_tokenIndex = tokenIndex,
             it_metadata = metadata, it_startOffset = startOffset, it_endOffset = endOffset \<rparr>])"

definition Iterator_clone :: "heap \<Rightarrow> ref \<Rightarrow> ref \<times> heap" where
  "Iterator_clone h this =
     new_LineTokensIterator h (it_source (h ! this)) (it_tokenIndex (h ! this))
       (it_tokenCount (h ! this)) (it_startOffset (h ! this)) (it_endOffset (h ! this))
       (it_metadata (h ! this))"

definition tokenAt :: "LineTokens \<Rightarrow> int \<Rightarrow> ref option \<Rightarrow> heap \<Rightarrow> ref \<times> heap" where
  "tokenAt lt tokenIndex dest h =
     (let startOffset = (if tokenIndex > 0 then arr_get (lt_tokens lt) (shl1 (tokenIndex - 1))
                         else Some 0);
          endOffset = arr_get (lt_tokens lt) (shl1 tokenIndex);
          metadata = arr_get (lt_tokens lt) (shl1 tokenIndex + 1)
      in case dest of
           Some d \<Rightarrow> (d, Iterator_set h d tokenIndex startOffset endOffset metadata)
         | None \<Rightarrow> new_LineTokensIterator h lt tokenIndex (lt_tokensCount lt)
                     startOffset endOffset metadata)"

text \<open>\<^verbatim>\<open>prev\<close> and \<^verbatim>\<open>next\<close> answer \<^verbatim>\<open>null\<close> (\<^const>\<open>None\<close>) or the cursor itself.\<close>

definition Iterator_prev :: "heap \<Rightarrow> ref \<Rightarrow> ref option \<times> heap" where
  "Iterator_prev h this =
     (if \<not> hasPrev (h ! this) then (None, h)
      else (Some this,
            snd (tokenAt (it_source (h ! this)) (it_tokenIndex (h ! this) - 1) (Some this) h)))"

definition Iterator_next :: "heap \<Rightarrow> ref \<Rightarrow> ref option \<times> heap" where
  "Iterator_next h this =
     (if \<not> hasNext (h ! this) then (None, h)
      else (Some this,
            snd (tokenAt (it_source (h ! this)) (it_tokenIndex (h ! this) + 1) (Some this) h)))"

definition firstToken :: "LineTokens \<Rightarrow> heap \<Rightarrow> ref option \<times> heap" where
  "firstToken lt h =
     (if lt_textLength lt = 0 then (None, h)
      else (case tokenAt lt 0 None h of (r, h') \<Rightarrow> (Some r, h')))"

definition lastToken :: "LineTokens \<Rightarrow> heap \<Rightarrow> ref option \<times> heap" where
  "lastToken lt h =
     (if lt_textLength lt = 0 then (None, h)
      else (case tokenAt lt (lt_tokensCount lt - 1) None h of (r, h') \<Rightarrow> (Some r, h')))"

section \<open>Searching a token by offset\<close>

text \<open>
  \<^verbatim>\<open>findTokenIndexAtOffset\<close> hands the packed array and the offset to
  \<^verbatim>\<open>ViewLineTokenFactory.findIndexInSegmentsArray\<close>, of
  \<^verbatim>\<open>vs/editor/common/core/viewLineToken\<close>.
\<close>

text \<open>
  Modelled from the spec: \<^verbatim>\<open>ViewLineTokenFactory.findIndexInSegmentsArray\<close>, whose file
  is not part of the sources at hand. The specification describes a binary search over the
  strictly increasing end offsets (the even slots) for the token whose half-open range
  holds the offset. A probe that meets the offset exactly answers the next token, the
  one whose range starts there. The end offset of the last token is never probed, so
  an offset at or beyond the length of the line answers the last index. An offset at or
  below zero sends every probe downwards and answers 0, unless a probe meets it exactly.
  A probe that reads outside the array ends the search with \<^const>\<open>None\<close>.
\<close>

function findIndex_search :: "uint32 list \<Rightarrow> int \<Rightarrow> int \<Rightarrow> int \<Rightarrow> int option" where
  "findIndex_search tokens offset low high =
     (if low < high then
        (let mid = low + (high - low) div 2 in
         case arr_get tokens (shl1 mid) of
           None \<Rightarrow> None
         | Some endOffset \<Rightarrow>
             if endOffset = offset then Some (mid + 1)
             else if endOffset < offset then findIndex_search tokens offset (mid + 1) high
             else findIndex_search tokens offset low mid)
      else Some low)"
  by pat_completeness auto
termination
  by (relation "measure (\<lambda>(tokens, offset, low, high). nat (high - low))") auto

declare findIndex_search.simps [simp del]

definition findIndexInSegmentsArray :: "uint32 list \<Rightarrow> int \<Rightarrow> int option" where
  "findIndexInSegmentsArray tokens offset =
     findIndex_search tokens offset 0 (ushr1 (int (length tokens)) - 1)"

definition findTokenIndexAtOffset :: "LineTokens \<Rightarrow> int \<Rightarrow> int option" where
  "findTokenIndexAtOffset lt offset = findIndexInSegmentsArray (lt_tokens lt) offset"

text \<open>
  The invariants of the specification's data model, for a packed array and a text: the array has
  two slots per token and at least one token, the end offsets increase strictly, and
  the last one is the length of the text.
\<close>

definition endOffsets :: "uint32 list \<Rightarrow> int list" where
  "endOffsets tokens = map (\<lambda>i. uint (tokens ! (2 * i))) [0..<length tokens div 2]"

definition wellformed :: "uint32 list \<Rightarrow> jsstring \<Rightarrow> bool" where
  "wellformed tokens txt \<longleftrightarrow>
     even (length tokens) \<and> tokens \<noteq> [] \<and>
     sorted_wrt (<) (endOffsets tokens) \<and>
     last (endOffsets tokens) = int (length txt)"

section \<open>The metadata codec\<close>

text \<open>
  Modelled from the spec: the codec \<^verbatim>\<open>TokenMetadata\<close> of
  \<^verbatim>\<open>vs/editor/common/model/tokensBinaryEncoding\<close>, whose file is not part of the
  sources at hand. The specification fixes neither the offsets nor the widths of the five
  fields, only that they do not overlap and lie within the 32-bit word; the layout is
  therefore a parameter. Encoding shifts each field to its offset and ORs the five;
  decoding masks the field and shifts it down.
\<close>

record MetadataLayout =
  languageId_offset :: nat
  languageId_width :: nat
  tokenType_offset :: nat
  tokenType_width :: nat
  fontStyle_offset :: nat
  fontStyle_width :: nat
  foreground_offset :: nat
  foreground_width :: nat
  background_offset :: nat
  background_width :: nat

definition layout_fields :: "MetadataLayout \<Rightarrow> (nat \<times> nat) list" where
  "layout_fields L =
     [(languageId_offset L, languageId_width L), (tokenType_offset L, tokenType_width L),
      (fontStyle_offset L, fontStyle_width L), (foreground_offset L, foreground_width L),
      (background_offset L, background_width L)]"

definition fields_apart :: "nat \<times> nat \<Rightarrow> nat \<times> nat \<Rightarrow> bool" where
  "fields_apart f g \<longleftrightarrow> fst f + snd f \<le> fst g \<or> fst g + snd g \<le> fst f"

definition valid_layout :: "MetadataLayout \<Rightarrow> bool" where
  "valid_layout L \<longleftrightarrow>
     list_all (\<lambda>f. fst f + snd f \<le> 32) (layout_fields L) \<and>
     sorted_wrt fields_apart (layout_fields L)"

definition fits :: "nat \<Rightarrow> uint32 \<Rightarrow> bool" where
  "fits width v \<longleftrightarrow> unat v < 2 ^ width"

definition field_mask :: "nat \<Rightarrow> nat \<Rightarrow> uint32" where
  "field_mask off width = push_bit off (mask width)"

definition decode_field :: "nat \<Rightarrow> nat \<Rightarrow> uint32 \<Rightarrow> uint32" where
  "decode_field off width w = drop_bit off (w AND field_mask off width)"

definition encode :: "MetadataLayout \<Rightarrow> uint32 \<Rightarrow> uint32 \<Rightarrow> uint32 \<Rightarrow> uint32 \<Rightarrow> uint32 \<Rightarrow> uint32" where
  "encode L languageId tokenType fontStyle foregroundId backgroundId =
     push_bit (languageId_offset L) languageId OR push_bit (tokenType_offset L) tokenType OR
     push_bit (fontStyle_offset L) fontStyle OR push_bit (foreground_offset L) foregroundId OR
     push_bit (background_offset L) backgroundId"

definition decodeLanguageId :: "MetadataLayout \<Rightarrow> uint32 \<Rightarrow> uint32" where
  "decodeLanguageId L w = decode_field (languageId_offset L) (languageId_width L) w"

definition decodeTokenType :: "MetadataLayout \<Rightarrow> uint32 \<Rightarrow> uint32" where
  "decodeTokenType L w = decode_field (tokenType_offset L) (tokenType_width L) w"

definition decodeFontStyle :: "MetadataLayout \<Rightarrow> uint32 \<Rightarrow> uint32" where
  "decodeFontStyle L w = decode_field (fontStyle_offset L) (fontStyle_width L) w"

definition decodeForeground :: "MetadataLayout \<Rightarrow> uint32 \<Rightarrow> uint32" where
  "decodeForeground L w = decode_field (foreground_offset L) (foreground_width L) w"

definition decodeBackground :: "MetadataLayout \<Rightarrow> uint32 \<Rightarrow> uint32" where
  "decodeBackground L w = decode_field (background_offset L) (background_width L) w"

text \<open>A layout for examples: 8, 3, 3, 9 and 9 bits, from bit 0 upwards.\<close>

definition example_layout :: MetadataLayout where
  "example_layout =
     \<lparr> languageId_offset = 0, languageId_width = 8, tokenType_offset = 8, tokenType_width = 3,
       fontStyle_offset = 11, fontStyle_width = 3, foreground_offset = 14, foreground_width = 9,
       background_offset = 23, background_width = 9 \<rparr>"

section \<open>Slicing\<close>

text \<open>
  \<^verbatim>\<open>sliceAndInflate\<close> hands the packed array, the three offsets and the length of the
  text to \<^verbatim>\<open>ViewLineTokenFactory.sliceAndInflate\<close> and wraps the answer in a
  \<^verbatim>\<open>ViewLineTokens\<close>.
\<close>

text \<open>
  Modelled from the spec: \<^verbatim>\<open>ViewLineTokenFactory.sliceAndInflate\<close> and the classes
  \<^verbatim>\<open>ViewLineToken\<close> and \<^verbatim>\<open>ViewLineTokens\<close>, whose file is not part of the sources
  at hand. A descriptor carries a start offset, an end offset and the metadata word.
  The tokens are visited in order; each range is clipped to the slice, a range that is
  empty after clipping is left out, and the offsets of the others are shifted. The
  ranges of the tokens already lie within the buffer, so the length of the text does
  not enter the clipping.
\<close>

record ViewLineToken =
  vt_startOffset :: int
  vt_endOffset :: int
  vt_metadata :: uint32

datatype ViewLineTokens = ViewLineTokens "ViewLineToken list"

definition token_start :: "uint32 list \<Rightarrow> nat \<Rightarrow> int" where
  "token_start tokens i = (if i = 0 then 0 else uint (tokens ! (2 * (i - 1))))"

definition token_end :: "uint32 list \<Rightarrow> nat \<Rightarrow> int" where
  "token_end tokens i = uint (tokens ! (2 * i))"

function slice_loop ::
  "uint32 list \<Rightarrow> int \<Rightarrow> int \<Rightarrow> int \<Rightarrow> nat \<Rightarrow> ViewLineToken list \<Rightarrow> ViewLineToken list" where
  "slice_loop tokens startOffset endOffset deltaOffset i result =
     (if i < length tokens div 2 then
        (let clippedStart = max (token_start tokens i) startOffset;
             clippedEnd = min (token_end tokens i) endOffset
         in slice_loop tokens startOffset endOffset deltaOffset (i + 1)
              (if clippedStart < clippedEnd then
                 result @ [\<lparr> vt_startOffset = clippedStart + deltaOffset,
                              vt_endOffset = clippedEnd + deltaOffset,
                              vt_metadata = tokens ! (2 * i + 1) \<rparr>]
               else result))
      else result)"
  by pat_completeness auto
termination
  by (relation "measure (\<lambda>(tokens, s, e, d, i, result). length tokens div 2 - i)") auto

declare slice_loop.simps [simp del]

text \<open>
  The two notions the claims about slicing are stated with: a token meets the slice
  when its clipped range is not empty, and the descriptor of such a token.
\<close>

definition overlaps :: "uint32 list \<Rightarrow> int \<Rightarrow> int \<Rightarrow> nat \<Rightarrow> bool" where
  "overlaps tokens startOffset endOffset i \<longleftrightarrow>
     max (token_start tokens i) startOffset < min (token_end tokens i) endOffset"

definition clipped :: "uint32 list \<Rightarrow> int \<Rightarrow> int \<Rightarrow> int \<Rightarrow> nat \<Rightarrow> ViewLineToken" where
  "clipped tokens startOffset endOffset deltaOffset i =
     \<lparr> vt_startOffset = max (token_start tokens i) startOffset + deltaOffset,
       vt_endOffset = min (token_end tokens i) endOffset + deltaOffset,
       vt_metadata = tokens ! (2 * i + 1) \<rparr>"

definition ViewLineTokenFactory_sliceAndInflate ::
  "uint32 list \<Rightarrow> int \<Rightarrow> int \<Rightarrow> int \<Rightarrow> int \<Rightarrow> ViewLineToken list" where
  "ViewLineTokenFactory_sliceAndInflate tokens startOffset endOffset deltaOffset lineLength =
     slice_loop tokens startOffset endOffset deltaOffset 0 []"

definition sliceAndInflate :: "LineTokens \<Rightarrow> int \<Rightarrow> int \<Rightarrow> int \<Rightarrow> ViewLineTokens" where
  "sliceAndInflate lt startOffset endOffset deltaOffset =
     ViewLineTokens (ViewLineTokenFactory_sliceAndInflate (lt_tokens lt)
                       startOffset endOffset deltaOffset (lt_textLength lt))"

section \<open>Example buffers\<close>

text \<open>
  Three tokens with the ranges \<open>[0,3)\<close>, \<open>[3,7)\<close> and \<open>[7,9)\<close> and the metadata
  words 1, 2 and 3, over a text of nine code units.
\<close>

definition example_tokens :: "uint32 list" where
  "example_tokens = [3, 1, 7, 2, 9, 3]"

definition example_text :: jsstring where
  "example_text = [97, 98, 99, 100, 101, 102, 103, 104, 105]"

definition example_buffer :: LineTokens where
  "example_buffer = new_LineTokens example_tokens example_text"

text \<open>
  A store with two cursors over the example buffer: reference 0 at the first token,
  reference 1 at the last.
\<close>

definition example_heap :: heap where
  "example_heap = snd (tokenAt example_buffer 2 None (snd (tokenAt example_buffer 0 None [])))"

section \<open>Basic facts\<close>

lemma shl1_small: "- (2 ^ 30) \<le> x \<Longrightarrow> x < 2 ^ 30 \<Longrightarrow> shl1 x = 2 * x"
  unfolding shl1_def by (rule signed_take_bit_int_eq_self) simp_all

lemma ushr1_length: "n < 2 ^ 32 \<Longrightarrow> ushr1 (int n) = int (n div 2)"
proof -
  assume "n < 2 ^ 32"
  then have "take_bit 32 (int n) = int n"
    by (simp add: take_bit_int_eq_self)
  then show ?thesis
    by (simp add: ushr1_def zdiv_int)
qed

lemma arr_set_nat: "n < length a \<Longrightarrow> arr_set a (int n) v = a[n := to_uint32 v]"
  by (simp add: arr_set_def)

lemma arr_get_nat: "n < length a \<Longrightarrow> arr_get a (int n) = Some (uint (a ! n))"
  by (simp add: arr_get_def)

lemma half_bound: "n < 2 ^ 31 \<Longrightarrow> n div 2 < (2 ^ 30 :: nat)"
proof -
  assume "n < 2 ^ 31"
  then have "n < 2 ^ 30 * 2" by simp
  then show ?thesis by (rule less_mult_imp_div_less)
qed

lemma shl1_index:
  assumes "length (tokens :: uint32 list) < 2 ^ 31" and "0 \<le> j" and "j < int (length tokens div 2)"
  shows "shl1 j = 2 * j"
proof (rule shl1_small)
  have "int (length tokens div 2) < int (2 ^ 30)"
    using half_bound [OF assms(1)] by (simp only: of_nat_less_iff)
  then have "int (length tokens div 2) < 2 ^ 30" by simp
  with assms(3) show "j < 2 ^ 30" by (rule less_trans)
  have "- (2 ^ 30) \<le> (0::int)" by simp
  then show "- (2 ^ 30) \<le> j" using assms(2) by (rule order_trans)
qed

lemma ushr1_length31: "length (tokens :: uint32 list) < 2 ^ 31 \<Longrightarrow>
    ushr1 (int (length tokens)) = int (length tokens div 2)"
proof (rule ushr1_length)
  assume "length tokens < 2 ^ 31"
  moreover have "(2 ^ 31 :: nat) < 2 ^ 32" by simp
  ultimately show "length tokens < 2 ^ 32" by (rule less_trans)
qed

lemma tokenAt_fresh:
  "tokenAt lt i None h = (length h, h @ [\<lparr> it_source = lt, it_tokenCount = lt_tokensCount lt,
       it_tokenIndex = i, it_metadata = getMetadata lt i,
       it_startOffset = getStartOffset lt i, it_endOffset = getEndOffset lt i \<rparr>])"
  by (simp add: tokenAt_def new_LineTokensIterator_def getMetadata_def getStartOffset_def
      getEndOffset_def)

lemma tokenAt_dest:
  "tokenAt lt i (Some d) h = (d, h[d := (h ! d)\<lparr> it_tokenIndex := i, it_metadata := getMetadata lt i,
       it_startOffset := getStartOffset lt i, it_endOffset := getEndOffset lt i \<rparr>])"
  by (simp add: tokenAt_def Iterator_set_def getMetadata_def getStartOffset_def
      getEndOffset_def)

lemmas example_simps = example_buffer_def example_tokens_def example_text_def new_LineTokens_def
  example_heap_def tokenAt_fresh getMetadata_def getStartOffset_def getEndOffset_def arr_get_def
  shl1_def ushr1_def hasNext_def hasPrev_def getCount_def

section \<open>Start and end offsets\<close>

text \<open>
  C4. The first token starts at offset 0, and every later token starts where the token
  before it ends: for \<open>1 \<le> i < N\<close>, \<open>getStartOffset i = getEndOffset (i - 1)\<close>, both
  being the same read of the packed array.
\<close>

theorem C4_contiguity:
  "getStartOffset lt 0 = Some 0 \<and>
   (\<forall>i. 1 \<le> i \<and> i < getCount lt \<longrightarrow> getStartOffset lt i = getEndOffset lt (i - 1))"
  by (simp add: getStartOffset_def getEndOffset_def)

theorem C4_contiguity_witness:
  "(1::int) \<le> 1 \<and> 1 < getCount example_buffer \<and>
   getStartOffset example_buffer 1 = Some 3 \<and> getEndOffset example_buffer (1 - 1) = Some 3"
  using C4_contiguity [of example_buffer]
  by (simp add: example_buffer_def example_tokens_def getCount_def new_LineTokens_def
      ushr1_def getEndOffset_def arr_get_def shl1_def)

text \<open>
  C10. For every token index that is zero or negative, \<open>getStartOffset\<close> answers 0:
  the guard of the read is \<open>tokenIndex > 0\<close>, so a negative index does not fail.
\<close>

theorem C10_start_offset_nonpositive:
  "tokenIndex \<le> 0 \<Longrightarrow> getStartOffset lt tokenIndex = Some 0"
  by (simp add: getStartOffset_def)

theorem C10_start_offset_nonpositive_witness:
  "(- 5::int) \<le> 0 \<and> getStartOffset example_buffer (- 5) = Some 0"
  using C10_start_offset_nonpositive [of "- 5" example_buffer]
  by simp


section \<open>Cursors\<close>

text \<open>
  C5. \<open>firstToken\<close> and \<open>lastToken\<close> answer \<open>null\<close> exactly when the text of
  the buffer is empty, whatever the packed array holds; otherwise they answer a newly
  allocated cursor, at token index 0 and at token index \<open>N - 1\<close>, and leave the
  cursors already in the store alone.
\<close>

theorem C5_first_last_token:
  "(fst (firstToken (new_LineTokens tokens txt) h) = None \<longleftrightarrow> length txt = 0) \<and>
   (fst (lastToken (new_LineTokens tokens txt) h) = None \<longleftrightarrow> length txt = 0) \<and>
   (length txt \<noteq> 0 \<longrightarrow>
      (\<exists>h'. firstToken (new_LineTokens tokens txt) h = (Some (length h), h') \<and>
            length h' = length h + 1 \<and> take (length h) h' = h \<and>
            it_tokenIndex (h' ! length h) = 0) \<and>
      (\<exists>h'. lastToken (new_LineTokens tokens txt) h = (Some (length h), h') \<and>
            length h' = length h + 1 \<and> take (length h) h' = h \<and>
            it_tokenIndex (h' ! length h) = getCount (new_LineTokens tokens txt) - 1))"
  by (simp add: firstToken_def lastToken_def tokenAt_fresh new_LineTokens_def getCount_def)

theorem C5_first_last_token_witness:
  "length example_text \<noteq> 0 \<and>
   firstToken (new_LineTokens example_tokens example_text) [] =
     (Some 0, [\<lparr> it_source = example_buffer, it_tokenCount = 3, it_tokenIndex = 0,
                  it_metadata = Some 1, it_startOffset = Some 0, it_endOffset = Some 3 \<rparr>]) \<and>
   lastToken (new_LineTokens example_tokens example_text) [] =
     (Some 0, [\<lparr> it_source = example_buffer, it_tokenCount = 3, it_tokenIndex = 2,
                  it_metadata = Some 3, it_startOffset = Some 7, it_endOffset = Some 9 \<rparr>]) \<and>
   firstToken (new_LineTokens example_tokens []) [] = (None, []) \<and>
   lastToken (new_LineTokens example_tokens []) [] = (None, [])"
  using C5_first_last_token [of example_tokens example_text "[]"]
    C5_first_last_token [of example_tokens "[]" "[]"]
  by (simp add: example_simps firstToken_def lastToken_def)

text \<open>
  C6. When \<open>hasNext\<close> is false, \<open>next\<close> answers \<open>null\<close> and the store, hence every
  cached field of the cursor, is unchanged; the same for \<open>prev\<close> when \<open>hasPrev\<close>
  is false. When the guard holds, the call answers the cursor itself, whose index has
  moved by one and whose start offset, end offset and metadata are those the buffer
  gives for the new index; the buffer reference, the token count and every other cursor
  stay as they were.
\<close>

theorem C6_prev_next_guard:
  assumes "this < length h"
  shows "(\<not> hasNext (h ! this) \<longrightarrow> Iterator_next h this = (None, h)) \<and>
         (\<not> hasPrev (h ! this) \<longrightarrow> Iterator_prev h this = (None, h)) \<and>
         (hasNext (h ! this) \<longrightarrow>
            Iterator_next h this =
              (Some this,
               h[this := (h ! this)\<lparr>
                    it_tokenIndex := it_tokenIndex (h ! this) + 1,
                    it_metadata := getMetadata (it_source (h ! this)) (it_tokenIndex (h ! this) + 1),
                    it_startOffset := getStartOffset (it_source (h ! this)) (it_tokenIndex (h ! this) + 1),
                    it_endOffset := getEndOffset (it_source (h ! this)) (it_tokenIndex (h ! this) + 1) \<rparr>])) \<and>
         (hasPrev (h ! this) \<longrightarrow>
            Iterator_prev h this =
              (Some this,
               h[this := (h ! this)\<lparr>
                    it_tokenIndex := it_tokenIndex (h ! this) - 1,
                    it_metadata := getMetadata (it_source (h ! this)) (it_tokenIndex (h ! this) - 1),
                    it_startOffset := getStartOffset (it_source (h ! this)) (it_tokenIndex (h ! this) - 1),
                    it_endOffset := getEndOffset (it_source (h ! this)) (it_tokenIndex (h ! this) - 1) \<rparr>]))"
  by (simp add: Iterator_next_def Iterator_prev_def tokenAt_dest)

theorem C6_prev_next_guard_witness:
  "(0::nat) < length example_heap \<and> (1::nat) < length example_heap \<and>
   hasNext (example_heap ! 0) \<and> \<not> hasPrev (example_heap ! 0) \<and>
   \<not> hasNext (example_heap ! 1) \<and> hasPrev (example_heap ! 1) \<and>
   Iterator_prev example_heap 0 = (None, example_heap) \<and>
   Iterator_next example_heap 1 = (None, example_heap) \<and>
   fst (Iterator_next example_heap 0) = Some 0 \<and>
   snd (Iterator_next example_heap 0) ! 0 =
     \<lparr> it_source = example_buffer, it_tokenCount = 3, it_tokenIndex = 1,
       it_metadata = Some 2, it_startOffset = Some 3, it_endOffset = Some 7 \<rparr> \<and>
   fst (Iterator_prev example_heap 1) = Some 1 \<and>
   snd (Iterator_prev example_heap 1) ! 1 =
     \<lparr> it_source = example_buffer, it_tokenCount = 3, it_tokenIndex = 1,
       it_metadata = Some 2, it_startOffset = Some 3, it_endOffset = Some 7 \<rparr>"
  using C6_prev_next_guard [of 0 example_heap] C6_prev_next_guard [of 1 example_heap]
  by (simp add: example_simps)

text \<open>
  C7. \<open>clone\<close> allocates a cursor distinct from the original with the same fields,
  and moving the clone with \<open>next\<close> or \<open>prev\<close> leaves every field of the original
  cursor (index, start offset, end offset, metadata) unchanged.
\<close>

theorem C7_clone_independent:
  assumes "this < length h" and "Iterator_clone h this = (c, h1)"
  shows "c \<noteq> this \<and> c < length h1 \<and> h1 ! c = h ! this \<and> h1 ! this = h ! this \<and>
         snd (Iterator_next h1 c) ! this = h ! this \<and>
         snd (Iterator_prev h1 c) ! this = h ! this"
proof -
  have copy: "\<lparr> it_source = it_source x, it_tokenCount = it_tokenCount x,
      it_tokenIndex = it_tokenIndex x, it_metadata = it_metadata x,
      it_startOffset = it_startOffset x, it_endOffset = it_endOffset x \<rparr> = x"
    for x :: LineTokensIterator
    by simp
  from assms(2) have c: "c = length h" and h1: "h1 = h @ [h ! this]"
    by (auto simp add: Iterator_clone_def new_LineTokensIterator_def copy)
  have ne: "c \<noteq> this" using assms(1) c by simp
  have same: "h1 ! this = h ! this" using assms(1) h1 by (simp add: nth_append)
  have "snd (Iterator_next h1 c) ! this = h1 ! this"
    using ne by (simp add: Iterator_next_def tokenAt_dest)
  moreover have "snd (Iterator_prev h1 c) ! this = h1 ! this"
    using ne by (simp add: Iterator_prev_def tokenAt_dest)
  ultimately show ?thesis using ne same c h1 by simp
qed

theorem C7_clone_independent_witness:
  "(0::nat) < length example_heap \<and>
   Iterator_clone example_heap 0 = (2, example_heap @ [example_heap ! 0]) \<and>
   it_tokenIndex (snd (Iterator_next (example_heap @ [example_heap ! 0]) 2) ! 2) = 1 \<and>
   snd (Iterator_next (example_heap @ [example_heap ! 0]) 2) ! 0 = example_heap ! 0 \<and>
   it_tokenIndex (example_heap ! 0) = 0"
proof -
  have len: "(0::nat) < length example_heap"
    by (simp add: example_simps)
  have cl: "Iterator_clone example_heap 0 = (2, example_heap @ [example_heap ! 0])"
    by (simp add: Iterator_clone_def new_LineTokensIterator_def example_simps)
  have moved: "it_tokenIndex (snd (Iterator_next (example_heap @ [example_heap ! 0]) 2) ! 2) = 1"
    by (simp add: Iterator_next_def tokenAt_dest example_simps)
  have "it_tokenIndex (example_heap ! 0) = 0"
    by (simp add: example_simps)
  with C7_clone_independent [OF len cl] len cl moved show ?thesis
    by simp
qed

section \<open>Equality of buffers\<close>

lemma equals_loop_iff:
  "equals_loop a b i len \<longleftrightarrow> (\<forall>k. i \<le> k \<and> k < len \<longrightarrow> arr_get a k = arr_get b k)"
proof (induction a b i len rule: equals_loop.induct)
  case (1 a b i len)
  show ?case
  proof (cases "i < len")
    case False
    then show ?thesis by auto
  next
    case True
    show ?thesis
    proof (cases "arr_get a i = arr_get b i")
      case False
      with True show ?thesis by auto
    next
      case eq: True
      have "(\<forall>k. i \<le> k \<and> k < len \<longrightarrow> arr_get a k = arr_get b k) \<longleftrightarrow>
            (\<forall>k. i + 1 \<le> k \<and> k < len \<longrightarrow> arr_get a k = arr_get b k)"
      proof (intro iffI allI impI)
        fix k assume h: "\<forall>k. i + 1 \<le> k \<and> k < len \<longrightarrow> arr_get a k = arr_get b k" and k: "i \<le> k \<and> k < len"
        show "arr_get a k = arr_get b k"
        proof (cases "k = i")
          case True then show ?thesis using eq by simp
        next
          case False
          with k have "i + 1 \<le> k \<and> k < len" by simp
          with h show ?thesis by blast
        qed
      qed auto
      with 1 True eq show ?thesis by simp
    qed
  qed
qed

lemma arr_get_all_iff:
  "(\<forall>k. 0 \<le> k \<and> k < int (length a) \<longrightarrow> arr_get a k = arr_get b k) \<longleftrightarrow>
   length a \<le> length b \<and> take (length a) b = a"
proof
  assume h: "\<forall>k. 0 \<le> k \<and> k < int (length a) \<longrightarrow> arr_get a k = arr_get b k"
  have el: "n < length b \<and> a ! n = b ! n" if "n < length a" for n
  proof -
    from that h have "arr_get a (int n) = arr_get b (int n)" by simp
    with that show ?thesis
      by (auto simp: arr_get_def word_uint_eq_iff split: if_splits)
  qed
  have le: "length a \<le> length b"
  proof (cases a rule: rev_cases)
    case Nil then show ?thesis by simp
  next
    case (snoc xs x)
    then have "length a - 1 < length a" by simp
    from el [OF this] snoc show ?thesis by simp
  qed
  moreover have "take (length a) b = a"
    using le el by (intro nth_equalityI) simp_all
  ultimately show "length a \<le> length b \<and> take (length a) b = a" ..
next
  assume h: "length a \<le> length b \<and> take (length a) b = a"
  show "\<forall>k. 0 \<le> k \<and> k < int (length a) \<longrightarrow> arr_get a k = arr_get b k"
  proof (intro allI impI)
    fix k assume k: "0 \<le> k \<and> k < int (length a)"
    then have "nat k < length a" by linarith
    then have "a ! nat k = b ! nat k"
      using h by (metis nth_take)
    with k h show "arr_get a k = arr_get b k"
      by (simp add: arr_get_def)
  qed
qed

lemma equals_char:
  "equals this (LineTokensObj other) \<longleftrightarrow>
     lt_text this = lt_text other \<and> lt_tokensCount this = lt_tokensCount other \<and>
     length (lt_tokens this) \<le> length (lt_tokens other) \<and>
     take (length (lt_tokens this)) (lt_tokens other) = lt_tokens this"
proof -
  have "equals_loop (lt_tokens this) (lt_tokens other) 0 (int (length (lt_tokens this))) \<longleftrightarrow>
        length (lt_tokens this) \<le> length (lt_tokens other) \<and>
        take (length (lt_tokens this)) (lt_tokens other) = lt_tokens this"
    unfolding equals_loop_iff by (rule arr_get_all_iff)
  then show ?thesis
    by (simp add: equals_def)
qed

lemma even_half_inj: "even (m::nat) \<Longrightarrow> even n \<Longrightarrow> m div 2 = n div 2 \<Longrightarrow> m = n"
  by presburger

lemma even_count_length:
  assumes "even (length a)" "even (length b)" "length a < 2 ^ 32" "length b < 2 ^ 32"
    and "ushr1 (int (length a)) = ushr1 (int (length b))"
  shows "length a = length b"
proof -
  have "ushr1 (int (length a)) = int (length a div 2)"
    using assms(3) by (rule ushr1_length)
  moreover have "ushr1 (int (length b)) = int (length b div 2)"
    using assms(4) by (rule ushr1_length)
  ultimately have "length a div 2 = length b div 2"
    using assms(5) by simp
  with assms(1,2) show ?thesis
    by (rule even_half_inj)
qed

text \<open>
  C3. For two buffers whose packed arrays have two slots per token (even length, below
  \<open>2^32\<close> elements), \<open>equals\<close> answers true if and only if the texts are the same,
  the token counts are the same and the packed arrays are the same, element for
  element. So any difference in the text, in the token count or in a packed element
  makes it answer false, \<open>equals\<close> is symmetric, and every buffer equals itself. An
  object that is not a \<open>LineTokens\<close> is never equal.
\<close>

theorem C3_equals:
  assumes "even (length a)" and "even (length b)"
    and "length a < 2 ^ 32" and "length b < 2 ^ 32"
  shows "(equals (new_LineTokens a t) (LineTokensObj (new_LineTokens b u)) \<longleftrightarrow>
            t = u \<and> getCount (new_LineTokens a t) = getCount (new_LineTokens b u) \<and> a = b) \<and>
         (equals (new_LineTokens a t) (LineTokensObj (new_LineTokens b u)) \<longleftrightarrow>
            equals (new_LineTokens b u) (LineTokensObj (new_LineTokens a t))) \<and>
         equals (new_LineTokens a t) (LineTokensObj (new_LineTokens a t)) \<and>
         \<not> equals (new_LineTokens a t) OtherViewLineTokens"
proof -
  have refl: "equals (new_LineTokens a t) (LineTokensObj (new_LineTokens a t))"
    by (simp add: equals_char)
  have other: "\<not> equals (new_LineTokens a t) OtherViewLineTokens"
    by (simp add: equals_def)
  have ev: "equals (new_LineTokens a t) (LineTokensObj (new_LineTokens b u)) \<longleftrightarrow>
         t = u \<and> getCount (new_LineTokens a t) = getCount (new_LineTokens b u) \<and> a = b"
    if h: "even (length a)" "even (length b)" "length a < 2 ^ 32" "length b < 2 ^ 32"
    for a b :: "uint32 list" and t u
  proof -
    have len: "length a = length b" if "ushr1 (int (length a)) = ushr1 (int (length b))"
      using h that by (rule even_count_length)
    have "equals (new_LineTokens a t) (LineTokensObj (new_LineTokens b u)) \<longleftrightarrow>
          t = u \<and> ushr1 (int (length a)) = ushr1 (int (length b)) \<and>
          length a \<le> length b \<and> take (length a) b = a"
      by (simp add: equals_char new_LineTokens_def)
    also have "\<dots> \<longleftrightarrow> t = u \<and> ushr1 (int (length a)) = ushr1 (int (length b)) \<and> a = b"
      using len by auto
    finally show ?thesis
      by (simp add: new_LineTokens_def getCount_def)
  qed
  have sym: "equals (new_LineTokens a t) (LineTokensObj (new_LineTokens b u)) \<longleftrightarrow>
         equals (new_LineTokens b u) (LineTokensObj (new_LineTokens a t))"
    using ev [OF assms] ev [OF assms(2) assms(1) assms(4) assms(3), of u t] by auto
  from ev [OF assms] sym refl other show ?thesis
    by (intro conjI)
qed

theorem C3_equals_witness:
  "even (length example_tokens) \<and> even (length [3, 1, 7, 2, 9, 4 :: uint32]) \<and>
   length example_tokens < 2 ^ 32 \<and> length [3, 1, 7, 2, 9, 4 :: uint32] < 2 ^ 32 \<and>
   equals (new_LineTokens example_tokens example_text)
          (LineTokensObj (new_LineTokens example_tokens example_text)) \<and>
   \<not> equals (new_LineTokens example_tokens example_text) OtherViewLineTokens \<and>
   \<not> equals (new_LineTokens example_tokens example_text)
            (LineTokensObj (new_LineTokens [3, 1, 7, 2, 9, 4] example_text)) \<and>
   \<not> equals (new_LineTokens [3, 1, 7, 2, 9, 4] example_text)
            (LineTokensObj (new_LineTokens example_tokens example_text))"
proof -
  have e1: "even (length example_tokens)" and e2: "even (length [3, 1, 7, 2, 9, 4 :: uint32])"
    and l1: "length example_tokens < 2 ^ 32" and l2: "length [3, 1, 7, 2, 9, 4 :: uint32] < 2 ^ 32"
    by (simp_all add: example_tokens_def)
  have ne: "example_tokens \<noteq> [3, 1, 7, 2, 9, 4]"
    by (simp add: example_tokens_def)
  from C3_equals [OF e1 e2 l1 l2, of example_text example_text] e1 e2 l1 l2 ne
  show ?thesis
    by blast
qed

section \<open>Converting to end offsets\<close>

lemma loop_step_array:
  assumes "shl1 (int n) = 2 * int n" and "shl1 (int n + 1) = 2 * int n + 2"
    and "2 * n + 2 < length tokens"
  shows "arr_set tokens (shl1 (int n)) (arr_get tokens (shl1 (int n + 1))) =
         tokens[2 * n := tokens ! (2 * n + 2)]"
proof -
  have g: "arr_get tokens (2 * int n + 2) = Some (uint (tokens ! (2 * n + 2)))"
    using assms(3) by (simp add: arr_get_def nat_add_distrib nat_mult_distrib)
  have "arr_set tokens (2 * int n) (Some (uint (tokens ! (2 * n + 2)))) =
        tokens[2 * n := tokens ! (2 * n + 2)]"
    using assms(3) by (simp add: arr_set_def nat_mult_distrib)
  with g assms(1,2) show ?thesis by simp
qed

lemma convert_loop_spec:
  assumes "\<And>j. 0 \<le> j \<Longrightarrow> j \<le> lastTokenIndex \<Longrightarrow> shl1 j = 2 * j"
    and "0 \<le> i" and "2 * lastTokenIndex + 2 \<le> int (length tokens)"
  shows "length (convertToEndOffset_loop tokens lastTokenIndex i) = length tokens \<and>
         (\<forall>k < length tokens. convertToEndOffset_loop tokens lastTokenIndex i ! k =
            (if even k \<and> i \<le> int (k div 2) \<and> int (k div 2) < lastTokenIndex
             then tokens ! (k + 2) else tokens ! k))"
  using assms
proof (induction tokens lastTokenIndex i rule: convertToEndOffset_loop.induct)
  case (1 tokens lastTokenIndex tokenIndex)
  show ?case
  proof (cases "tokenIndex < lastTokenIndex")
    case False
    then have "convertToEndOffset_loop tokens lastTokenIndex tokenIndex = tokens"
      by (subst convertToEndOffset_loop.simps) simp
    with False show ?thesis by auto
  next
    case True
    define n where "n = nat tokenIndex"
    have n: "int n = tokenIndex" using "1.prems"(2) by (simp add: n_def)
    have rng: "2 * n + 2 < length tokens"
      using True "1.prems"(3) n by linarith
    define tokens' where "tokens' = tokens[2 * n := tokens ! (2 * n + 2)]"
    have s1: "shl1 (int n) = 2 * int n"
      using "1.prems"(1) [of tokenIndex] "1.prems"(2) True n by simp
    have s2: "shl1 (int n + 1) = 2 * int n + 2"
      using "1.prems"(1) [of "tokenIndex + 1"] "1.prems"(2) True n by simp
    have step: "arr_set tokens (shl1 tokenIndex) (arr_get tokens (shl1 (tokenIndex + 1))) = tokens'"
      using loop_step_array [OF s1 s2 rng] n by (simp add: tokens'_def)
    have len': "length tokens' = length tokens" by (simp add: tokens'_def)
    have unfold: "convertToEndOffset_loop tokens lastTokenIndex tokenIndex =
                  convertToEndOffset_loop tokens' lastTokenIndex (tokenIndex + 1)"
      using True step by (subst convertToEndOffset_loop.simps) simp
    have IH: "length (convertToEndOffset_loop tokens' lastTokenIndex (tokenIndex + 1)) = length tokens' \<and>
         (\<forall>k < length tokens'. convertToEndOffset_loop tokens' lastTokenIndex (tokenIndex + 1) ! k =
            (if even k \<and> tokenIndex + 1 \<le> int (k div 2) \<and> int (k div 2) < lastTokenIndex
             then tokens' ! (k + 2) else tokens' ! k))"
    proof (rule "1.IH" [OF True, unfolded step])
      show "shl1 j = 2 * j" if "0 \<le> j" "j \<le> lastTokenIndex" for j
        using that by (rule "1.prems"(1))
      show "0 \<le> tokenIndex + 1" using "1.prems"(2) by simp
      show "2 * lastTokenIndex + 2 \<le> int (length tokens')"
        using "1.prems"(3) len' by simp
    qed
    have el: "(if even k \<and> tokenIndex + 1 \<le> int (k div 2) \<and> int (k div 2) < lastTokenIndex
             then tokens' ! (k + 2) else tokens' ! k) =
            (if even k \<and> tokenIndex \<le> int (k div 2) \<and> int (k div 2) < lastTokenIndex
             then tokens ! (k + 2) else tokens ! k)" if k: "k < length tokens" for k
    proof (cases "k = 2 * n")
      case True
      then have "k div 2 = n" "even k" by simp_all
      with True n \<open>tokenIndex < lastTokenIndex\<close> k show ?thesis
        by (simp add: tokens'_def)
    next
      case False
      have a: "tokens' ! k = tokens ! k" using False by (simp add: tokens'_def)
      have b: "tokens' ! (k + 2) = tokens ! (k + 2)" if "tokenIndex + 1 \<le> int (k div 2)"
      proof -
        from that n have "n + 1 \<le> k div 2" by linarith
        then have "k + 2 \<noteq> 2 * n" by linarith
        then show ?thesis by (simp add: tokens'_def)
      qed
      have c: "\<not> (even k \<and> int (k div 2) = tokenIndex)"
      proof
        assume h: "even k \<and> int (k div 2) = tokenIndex"
        then have "k div 2 = n" using n by linarith
        moreover from h have "2 * (k div 2) = k" by simp
        ultimately show False using False by simp
      qed
      show ?thesis
      proof (cases "even k \<and> tokenIndex + 1 \<le> int (k div 2) \<and> int (k div 2) < lastTokenIndex")
        case T: True
        then have T2: "even k \<and> tokenIndex \<le> int (k div 2) \<and> int (k div 2) < lastTokenIndex"
          by linarith
        from T have "tokens' ! (k + 2) = tokens ! (k + 2)" by (intro b) simp
        then show ?thesis
          unfolding if_P [OF T] if_P [OF T2] .
      next
        case F: False
        have G: "\<not> (even k \<and> tokenIndex \<le> int (k div 2) \<and> int (k div 2) < lastTokenIndex)"
          using F c by linarith
        show ?thesis
          unfolding if_not_P [OF F] if_not_P [OF G] by (rule a)
      qed
    qed
    show ?thesis
      unfolding unfold using IH el len' by simp
  qed
qed


lemma convertToEndOffset_empty:
  assumes "length tokens div 2 = 0"
  shows "convertToEndOffset tokens L = tokens"
proof -
  have "length tokens < 2" using assms by (simp add: div_eq_0_iff)
  then have "length tokens = 0 \<or> length tokens = 1" by linarith
  then have u: "ushr1 (int (length tokens)) = 0"
    by (auto simp: ushr1_def)
  have l: "convertToEndOffset_loop tokens (- 1) 0 = tokens"
    by (subst convertToEndOffset_loop.simps) simp
  have "shl1 (- 1) = - 2" by (simp add: shl1_def)
  then show ?thesis
    by (simp add: convertToEndOffset_def u l arr_set_def)
qed

lemma convertToEndOffset_nonempty:
  assumes len: "length tokens < 2 ^ 31" and N: "0 < length tokens div 2"
  shows "convertToEndOffset tokens L =
         (convertToEndOffset_loop tokens (int (length tokens div 2) - 1) 0)
           [2 * (length tokens div 2 - 1) := word_of_int L]"
proof -
  define N where "N = length tokens div 2"
  define r where "r = convertToEndOffset_loop tokens (int N - 1) 0"
  have nowrap: "shl1 j = 2 * j" if "0 \<le> j" "j \<le> int N - 1" for j
    using len that(1) by (rule shl1_index) (use that(2) in \<open>simp add: N_def\<close>)
  have N1: "1 \<le> N" using N by (simp add: N_def)
  have rlen: "length r = length tokens"
    unfolding r_def
  proof (rule convert_loop_spec [THEN conjunct1])
    show "shl1 j = 2 * j" if "0 \<le> j" "j \<le> int N - 1" for j
      using that by (rule nowrap)
    show "(0::int) \<le> 0" by simp
    show "2 * (int N - 1) + 2 \<le> int (length tokens)"
      by (simp add: N_def)
  qed
  have "shl1 (int N - 1) = 2 * (int N - 1)"
    using N1 by (intro nowrap) simp_all
  moreover have "2 * (int N - 1) = int (2 * (N - 1))" using N1 by simp
  ultimately have s: "shl1 (int N - 1) = int (2 * (N - 1))" by (rule trans)
  have rng: "2 * (N - 1) < length r" unfolding rlen using N1 unfolding N_def by linarith
  have "convertToEndOffset tokens L = arr_set r (shl1 (int N - 1)) (Some L)"
    by (simp only: convertToEndOffset_def Let_def ushr1_length31 [OF len] r_def N_def)
  also have "\<dots> = arr_set r (int (2 * (N - 1))) (Some L)"
    by (simp only: s)
  also have "\<dots> = r[2 * (N - 1) := word_of_int L]"
    using arr_set_nat [OF rng, of "Some L"] by simp
  finally show ?thesis
    by (simp only: r_def N_def)
qed

lemma convert_lengths_example: "convertToEndOffset [3, 1, 4, 2, 2, 3] 9 = [4, 1, 2, 2, 9, 3]"
  by (simp add: convertToEndOffset_def convertToEndOffset_loop.simps ushr1_def shl1_def
      arr_set_def arr_get_def)

lemma convert_starts_example: "convertToEndOffset [0, 1, 3, 2, 7, 3] 9 = [3, 1, 7, 2, 9, 3]"
  by (simp add: convertToEndOffset_def convertToEndOffset_loop.simps ushr1_def shl1_def
      arr_set_def arr_get_def)

lemma endOffsets_example: "endOffsets [a, b, c, d, e, f] = [uint a, uint c, uint e]"
  by (simp add: endOffsets_def upt_rec)

text \<open>
  C1. \<open>convertToEndOffset\<close> keeps the length of the array and shifts the even slots
  one token down: for an array of fewer than \<open>2^31\<close> elements holding \<open>N\<close> tokens,
  even slot \<open>2i\<close> receives the former content of even slot \<open>2(i+1)\<close> for
  \<open>i < N - 1\<close>, the last even slot \<open>2(N-1)\<close> receives \<open>lineTextLength\<close> (as an
  unsigned 32-bit integer), and every other slot keeps its content. Start offsets
  \<open>[0, 3, 7]\<close> with text length 9 become the end offsets \<open>[3, 7, 9]\<close>; the values
  are not summed, so the lengths \<open>[3, 4, 2]\<close> become \<open>[4, 2, 9]\<close>.
\<close>

theorem C1_convertToEndOffset:
  assumes "length tokens < 2 ^ 31"
  shows "length (convertToEndOffset tokens lineTextLength) = length tokens \<and>
         (\<forall>k < length tokens. convertToEndOffset tokens lineTextLength ! k =
            (if even k \<and> k div 2 + 1 < length tokens div 2 then tokens ! (k + 2)
             else if even k \<and> k div 2 + 1 = length tokens div 2 then word_of_int lineTextLength
             else tokens ! k))"
proof (cases "length tokens div 2 = 0")
  case True
  then show ?thesis
    by (simp add: convertToEndOffset_empty)
next
  case False
  define N where "N = length tokens div 2"
  define r where "r = convertToEndOffset_loop tokens (int N - 1) 0"
  have N1: "1 \<le> N" using False by (simp add: N_def)
  have nowrap: "shl1 j = 2 * j" if "0 \<le> j" "j \<le> int N - 1" for j
    using assms that(1) by (rule shl1_index) (use that(2) in \<open>simp add: N_def\<close>)
  have spec: "length r = length tokens \<and>
         (\<forall>k < length tokens. r ! k =
            (if even k \<and> 0 \<le> int (k div 2) \<and> int (k div 2) < int N - 1
             then tokens ! (k + 2) else tokens ! k))"
    unfolding r_def
  proof (rule convert_loop_spec)
    show "shl1 j = 2 * j" if "0 \<le> j" "j \<le> int N - 1" for j
      using that by (rule nowrap)
    show "(0::int) \<le> 0" by simp
    show "2 * (int N - 1) + 2 \<le> int (length tokens)"
      by (simp add: N_def)
  qed
  have res: "convertToEndOffset tokens lineTextLength = r[2 * (N - 1) := word_of_int lineTextLength]"
    using convertToEndOffset_nonempty [OF assms, of lineTextLength] False
    by (simp add: r_def N_def)
  have el: "r[2 * (N - 1) := word_of_int lineTextLength] ! k =
            (if even k \<and> k div 2 + 1 < N then tokens ! (k + 2)
             else if even k \<and> k div 2 + 1 = N then word_of_int lineTextLength
             else tokens ! k)" if k: "k < length tokens" for k
  proof (cases "k = 2 * (N - 1)")
    case True
    then have "even k" "k div 2 + 1 = N" using N1 by simp_all
    with True k spec show ?thesis by simp
  next
    case ne: False
    have c: "\<not> (even k \<and> k div 2 + 1 = N)"
    proof
      assume h: "even k \<and> k div 2 + 1 = N"
      then have "2 * (k div 2) = k" by simp
      with h ne show False by auto
    qed
    have "r[2 * (N - 1) := word_of_int lineTextLength] ! k = r ! k"
      using ne by simp
    also have "\<dots> = (if even k \<and> 0 \<le> int (k div 2) \<and> int (k div 2) < int N - 1
             then tokens ! (k + 2) else tokens ! k)"
      using spec k by blast
    also have "\<dots> = (if even k \<and> k div 2 + 1 < N then tokens ! (k + 2) else tokens ! k)"
    proof -
      have "(0 \<le> int (k div 2) \<and> int (k div 2) < int N - 1) \<longleftrightarrow> k div 2 + 1 < N"
        by linarith
      then show ?thesis by simp
    qed
    finally show ?thesis using c by auto
  qed
  show ?thesis
    unfolding res using spec el by (simp add: N_def)
qed



theorem C1_convertToEndOffset_counterexample:
  "endOffsets [3, 1, 4, 2, 2, 3] = [3, 4, 2] \<and>
   convertToEndOffset [3, 1, 4, 2, 2, 3] 9 = [4, 1, 2, 2, 9, 3] \<and>
   endOffsets (convertToEndOffset [3, 1, 4, 2, 2, 3] 9) = [4, 2, 9] \<and>
   endOffsets (convertToEndOffset [3, 1, 4, 2, 2, 3] 9) \<noteq> [3, 7, 9]"
  by (simp add: convert_lengths_example endOffsets_example)

theorem C1_convertToEndOffset_witness:
  "length [0, 1, 3, 2, 7, 3 :: uint32] < 2 ^ 31 \<and>
   convertToEndOffset [0, 1, 3, 2, 7, 3] 9 = [3, 1, 7, 2, 9, 3] \<and>
   convertToEndOffset [0, 1, 3, 2, 7, 3] 9 ! 0 = [0, 1, 3, 2, 7, 3] ! 2 \<and>
   convertToEndOffset [0, 1, 3, 2, 7, 3] 9 ! 4 = word_of_int 9 \<and>
   endOffsets (convertToEndOffset [0, 1, 3, 2, 7, 3] 9) = [3, 7, 9]"
proof -
  have len: "length [0, 1, 3, 2, 7, 3 :: uint32] < 2 ^ 31" by simp
  have spec: "\<forall>k < length [0, 1, 3, 2, 7, 3 :: uint32]. convertToEndOffset [0, 1, 3, 2, 7, 3] 9 ! k =
            (if even k \<and> k div 2 + 1 < length [0, 1, 3, 2, 7, 3 :: uint32] div 2
             then [0, 1, 3, 2, 7, 3] ! (k + 2)
             else if even k \<and> k div 2 + 1 = length [0, 1, 3, 2, 7, 3 :: uint32] div 2 then word_of_int 9
             else [0, 1, 3, 2, 7, 3] ! k)"
    using C1_convertToEndOffset [OF len, of 9] by (rule conjunct2)
  have "convertToEndOffset [0, 1, 3, 2, 7, 3] 9 ! 0 = [0, 1, 3, 2, 7, 3] ! 2"
    using spec [rule_format, of 0] by simp
  moreover have "convertToEndOffset [0, 1, 3, 2, 7, 3] 9 ! 4 = word_of_int 9"
    using spec [rule_format, of 4] by simp
  ultimately show ?thesis
    using len by (simp add: convert_starts_example endOffsets_example)
qed


section \<open>Round trip of the metadata codec\<close>

lemma fits_bit:
  assumes "fits w v" and "bit v k"
  shows "k < w"
proof -
  from assms(1) have "take_bit w (unat v) = unat v"
    by (simp add: fits_def take_bit_nat_eq_self_iff)
  then have "unat (take_bit w v) = unat v"
    by (simp add: unsigned_take_bit_eq)
  then have "take_bit w v = v"
    by (simp add: word_eq_iff_unsigned [where ?'a = nat])
  with assms(2) have "bit (take_bit w v) k" by simp
  then show ?thesis by (simp add: bit_take_bit_iff)
qed

lemma bit_decode_field:
  "bit (decode_field off w x) n \<longleftrightarrow> n < w \<and> off + n < 32 \<and> bit x (off + n)"
  by (auto simp: decode_field_def field_mask_def bit_simps dest: bit_imp_le_length)

lemma decode_field_or:
  "decode_field off w (x OR y) = decode_field off w x OR decode_field off w y"
  by (rule bit_word_eqI) (auto simp: bit_decode_field bit_or_iff)

lemma decode_field_same:
  assumes "off + w \<le> 32" and "fits w v"
  shows "decode_field off w (push_bit off v) = v"
proof (rule bit_word_eqI)
  fix n assume "n < LENGTH(32)"
  show "bit (decode_field off w (push_bit off v)) n \<longleftrightarrow> bit v n"
  proof
    assume "bit (decode_field off w (push_bit off v)) n"
    then show "bit v n" by (simp add: bit_decode_field bit_push_bit_iff)
  next
    assume b: "bit v n"
    with assms(2) have "n < w" by (rule fits_bit)
    with assms(1) b show "bit (decode_field off w (push_bit off v)) n"
      by (simp add: bit_decode_field bit_push_bit_iff)
  qed
qed

lemma decode_field_apart:
  assumes "fields_apart (off, w) (off', w') \<or> fields_apart (off', w') (off, w)" and "fits w v"
  shows "decode_field off' w' (push_bit off v) = 0"
proof (rule bit_word_eqI)
  fix n assume "n < LENGTH(32)"
  have "\<not> bit (decode_field off' w' (push_bit off v)) n"
  proof
    assume "bit (decode_field off' w' (push_bit off v)) n"
    then have n: "n < w'" and le: "off \<le> off' + n" and b: "bit v (off' + n - off)"
      by (simp_all add: bit_decode_field bit_push_bit_iff)
    from assms(2) b have "off' + n - off < w" by (rule fits_bit)
    with n le assms(1) show False
      by (auto simp: fields_apart_def)
  qed
  then show "bit (decode_field off' w' (push_bit off v)) n \<longleftrightarrow> bit (0 :: uint32) n"
    by simp
qed


text \<open>
  C8. For every layout whose five fields lie within the 32-bit word and do not overlap,
  and for all field values that fit their widths, each decoder applied to the encoded
  word gives back its own field, whatever the other four values are.
\<close>

theorem C8_codec_roundtrip:
  assumes L: "valid_layout L"
    and f1: "fits (languageId_width L) languageId"
    and f2: "fits (tokenType_width L) tokenType"
    and f3: "fits (fontStyle_width L) fontStyle"
    and f4: "fits (foreground_width L) foregroundId"
    and f5: "fits (background_width L) backgroundId"
  shows "decodeLanguageId L (encode L languageId tokenType fontStyle foregroundId backgroundId) = languageId \<and>
         decodeTokenType L (encode L languageId tokenType fontStyle foregroundId backgroundId) = tokenType \<and>
         decodeFontStyle L (encode L languageId tokenType fontStyle foregroundId backgroundId) = fontStyle \<and>
         decodeForeground L (encode L languageId tokenType fontStyle foregroundId backgroundId) = foregroundId \<and>
         decodeBackground L (encode L languageId tokenType fontStyle foregroundId backgroundId) = backgroundId"
proof -
  let ?l = "(languageId_offset L, languageId_width L)"
  let ?t = "(tokenType_offset L, tokenType_width L)"
  let ?s = "(fontStyle_offset L, fontStyle_width L)"
  let ?f = "(foreground_offset L, foreground_width L)"
  let ?b = "(background_offset L, background_width L)"
  from L have bounds:
    "languageId_offset L + languageId_width L \<le> 32" "tokenType_offset L + tokenType_width L \<le> 32"
    "fontStyle_offset L + fontStyle_width L \<le> 32" "foreground_offset L + foreground_width L \<le> 32"
    "background_offset L + background_width L \<le> 32"
    by (simp_all add: valid_layout_def layout_fields_def)
  from L have apart:
    "fields_apart ?l ?t" "fields_apart ?l ?s" "fields_apart ?l ?f" "fields_apart ?l ?b"
    "fields_apart ?t ?s" "fields_apart ?t ?f" "fields_apart ?t ?b"
    "fields_apart ?s ?f" "fields_apart ?s ?b" "fields_apart ?f ?b"
    by (simp_all add: valid_layout_def layout_fields_def)
  note same = decode_field_same [OF bounds(1) f1] decode_field_same [OF bounds(2) f2]
    decode_field_same [OF bounds(3) f3] decode_field_same [OF bounds(4) f4]
    decode_field_same [OF bounds(5) f5]
  have lang: "decodeLanguageId L (encode L languageId tokenType fontStyle foregroundId backgroundId) = languageId"
    unfolding decodeLanguageId_def encode_def decode_field_or
    using same(1) decode_field_apart [OF _ f2] decode_field_apart [OF _ f3]
      decode_field_apart [OF _ f4] decode_field_apart [OF _ f5] apart
    by simp
  have type: "decodeTokenType L (encode L languageId tokenType fontStyle foregroundId backgroundId) = tokenType"
    unfolding decodeTokenType_def encode_def decode_field_or
    using same(2) decode_field_apart [OF _ f1] decode_field_apart [OF _ f3]
      decode_field_apart [OF _ f4] decode_field_apart [OF _ f5] apart
    by simp
  have style: "decodeFontStyle L (encode L languageId tokenType fontStyle foregroundId backgroundId) = fontStyle"
    unfolding decodeFontStyle_def encode_def decode_field_or
    using same(3) decode_field_apart [OF _ f1] decode_field_apart [OF _ f2]
      decode_field_apart [OF _ f4] decode_field_apart [OF _ f5] apart
    by simp
  have fg: "decodeForeground L (encode L languageId tokenType fontStyle foregroundId backgroundId) = foregroundId"
    unfolding decodeForeground_def encode_def decode_field_or
    using same(4) decode_field_apart [OF _ f1] decode_field_apart [OF _ f2]
      decode_field_apart [OF _ f3] decode_field_apart [OF _ f5] apart
    by simp
  have bg: "decodeBackground L (encode L languageId tokenType fontStyle foregroundId backgroundId) = backgroundId"
    unfolding decodeBackground_def encode_def decode_field_or
    using same(5) decode_field_apart [OF _ f1] decode_field_apart [OF _ f2]
      decode_field_apart [OF _ f3] decode_field_apart [OF _ f4] apart
    by simp
  from lang type style fg bg show ?thesis by (intro conjI)
qed

theorem C8_codec_roundtrip_witness:
  "valid_layout example_layout \<and>
   fits (languageId_width example_layout) 200 \<and> fits (tokenType_width example_layout) 5 \<and>
   fits (fontStyle_width example_layout) 7 \<and> fits (foreground_width example_layout) 300 \<and>
   fits (background_width example_layout) 511 \<and>
   decodeLanguageId example_layout (encode example_layout 200 5 7 300 511) = 200 \<and>
   decodeTokenType example_layout (encode example_layout 200 5 7 300 511) = 5 \<and>
   decodeFontStyle example_layout (encode example_layout 200 5 7 300 511) = 7 \<and>
   decodeForeground example_layout (encode example_layout 200 5 7 300 511) = 300 \<and>
   decodeBackground example_layout (encode example_layout 200 5 7 300 511) = 511"
proof -
  have L: "valid_layout example_layout"
    by (simp add: valid_layout_def layout_fields_def example_layout_def fields_apart_def)
  have f: "fits (languageId_width example_layout) 200" "fits (tokenType_width example_layout) 5"
    "fits (fontStyle_width example_layout) 7" "fits (foreground_width example_layout) 300"
    "fits (background_width example_layout) 511"
    by (simp_all add: fits_def example_layout_def)
  from C8_codec_roundtrip [OF L f] L f show ?thesis
    by (intro conjI) simp_all
qed


section \<open>Slices\<close>

lemma slice_loop_eq:
  "slice_loop tokens s e d i acc =
     acc @ map (clipped tokens s e d) (filter (overlaps tokens s e) [i..<length tokens div 2])"
proof (induction tokens s e d i acc rule: slice_loop.induct)
  case (1 tokens s e d i acc)
  show ?case
  proof (cases "i < length tokens div 2")
    case False
    then show ?thesis
      by (subst slice_loop.simps) simp
  next
    case True
    then have upt: "[i..<length tokens div 2] = i # [i + 1..<length tokens div 2]"
      by (simp add: upt_conv_Cons)
    define acc' where "acc' = (if overlaps tokens s e i then acc @ [clipped tokens s e d i] else acc)"
    have acc'_alt: "(if max (token_start tokens i) s < min (token_end tokens i) e
         then acc @ [\<lparr> vt_startOffset = max (token_start tokens i) s + d,
                        vt_endOffset = min (token_end tokens i) e + d,
                        vt_metadata = tokens ! (2 * i + 1) \<rparr>]
         else acc) = acc'"
      by (simp add: acc'_def overlaps_def clipped_def)
    have "slice_loop tokens s e d i acc = slice_loop tokens s e d (i + 1) acc'"
      by (subst slice_loop.simps) (simp only: True if_True Let_def acc'_alt)
    also have "\<dots> = acc' @
        map (clipped tokens s e d) (filter (overlaps tokens s e) [i + 1..<length tokens div 2])"
      using "1.IH" [OF True refl refl] unfolding acc'_alt .
    also have "\<dots> = acc @
        map (clipped tokens s e d) (filter (overlaps tokens s e) [i..<length tokens div 2])"
      by (simp add: acc'_def upt)
    finally show ?thesis .
  qed
qed

lemma slice_example:
  "sliceAndInflate example_buffer 2 5 0 =
     ViewLineTokens [\<lparr> vt_startOffset = 2, vt_endOffset = 3, vt_metadata = 1 \<rparr>,
                     \<lparr> vt_startOffset = 3, vt_endOffset = 5, vt_metadata = 2 \<rparr>]"
  by (simp add: sliceAndInflate_def ViewLineTokenFactory_sliceAndInflate_def slice_loop_eq
      example_buffer_def example_tokens_def new_LineTokens_def upt_rec
      overlaps_def clipped_def token_start_def token_end_def)

text \<open>
  C9. \<open>sliceAndInflate\<close> answers, in token order, one descriptor for each token
  whose range meets \<open>[startOffset, endOffset)\<close>, that is, whose range is not empty
  after clipping to the slice; a token lying outside the slice, and a token that
  clipping leaves empty, gives no descriptor. A descriptor holds the clipped range
  shifted by \<open>deltaOffset\<close>: it is not empty and lies within the shifted slice.
  Over the ranges \<open>[0,3)\<close>, \<open>[3,7)\<close>, \<open>[7,9)\<close>, \<open>sliceAndInflate(2, 5, 0)\<close>
  gives two descriptors, \<open>[2,3)\<close> and \<open>[3,5)\<close>, and none for the third token.
\<close>

theorem C9_sliceAndInflate:
  "sliceAndInflate lt startOffset endOffset deltaOffset =
     ViewLineTokens (map (clipped (lt_tokens lt) startOffset endOffset deltaOffset)
       (filter (overlaps (lt_tokens lt) startOffset endOffset) [0..<length (lt_tokens lt) div 2])) \<and>
   (\<forall>i. overlaps (lt_tokens lt) startOffset endOffset i \<longleftrightarrow>
      token_start (lt_tokens lt) i < token_end (lt_tokens lt) i \<and>
      token_start (lt_tokens lt) i < endOffset \<and> startOffset < token_end (lt_tokens lt) i \<and>
      startOffset < endOffset) \<and>
   (\<forall>i. overlaps (lt_tokens lt) startOffset endOffset i \<longrightarrow>
      startOffset + deltaOffset \<le> vt_startOffset (clipped (lt_tokens lt) startOffset endOffset deltaOffset i) \<and>
      vt_startOffset (clipped (lt_tokens lt) startOffset endOffset deltaOffset i)
        < vt_endOffset (clipped (lt_tokens lt) startOffset endOffset deltaOffset i) \<and>
      vt_endOffset (clipped (lt_tokens lt) startOffset endOffset deltaOffset i) \<le> endOffset + deltaOffset) \<and>
   sliceAndInflate example_buffer 2 5 0 =
     ViewLineTokens [\<lparr> vt_startOffset = 2, vt_endOffset = 3, vt_metadata = 1 \<rparr>,
                     \<lparr> vt_startOffset = 3, vt_endOffset = 5, vt_metadata = 2 \<rparr>]"
proof (intro conjI allI impI)
  show "sliceAndInflate lt startOffset endOffset deltaOffset =
     ViewLineTokens (map (clipped (lt_tokens lt) startOffset endOffset deltaOffset)
       (filter (overlaps (lt_tokens lt) startOffset endOffset) [0..<length (lt_tokens lt) div 2]))"
    by (simp add: sliceAndInflate_def ViewLineTokenFactory_sliceAndInflate_def slice_loop_eq)
qed (auto simp: overlaps_def clipped_def slice_example)


theorem C9_sliceAndInflate_witness:
  "overlaps (lt_tokens example_buffer) 2 5 0 \<and> overlaps (lt_tokens example_buffer) 2 5 1 \<and>
   \<not> overlaps (lt_tokens example_buffer) 2 5 2 \<and>
   clipped (lt_tokens example_buffer) 2 5 10 1 =
     \<lparr> vt_startOffset = 13, vt_endOffset = 15, vt_metadata = 2 \<rparr> \<and>
   sliceAndInflate example_buffer 2 5 10 =
     ViewLineTokens [\<lparr> vt_startOffset = 12, vt_endOffset = 13, vt_metadata = 1 \<rparr>,
                     \<lparr> vt_startOffset = 13, vt_endOffset = 15, vt_metadata = 2 \<rparr>] \<and>
   sliceAndInflate example_buffer 2 5 0 =
     ViewLineTokens [\<lparr> vt_startOffset = 2, vt_endOffset = 3, vt_metadata = 1 \<rparr>,
                     \<lparr> vt_startOffset = 3, vt_endOffset = 5, vt_metadata = 2 \<rparr>]"
  using C9_sliceAndInflate [of example_buffer 2 5 10]
  by (simp add: example_buffer_def example_tokens_def new_LineTokens_def upt_rec
      overlaps_def clipped_def token_start_def token_end_def)


section \<open>Finding the token at an offset\<close>

lemma length_endOffsets: "length (endOffsets tokens) = length tokens div 2"
  by (simp add: endOffsets_def)

lemma read_end:
  assumes len: "length tokens < 2 ^ 31" and i: "0 \<le> i" "i < int (length tokens div 2)"
  shows "arr_get tokens (shl1 i) = Some (endOffsets tokens ! nat i)"
proof -
  have s: "shl1 i = int (2 * nat i)"
    using shl1_index [OF len i] i(1) by simp
  have n: "nat i < length tokens div 2" using i by linarith
  then have rng: "2 * nat i < length tokens" by linarith
  have "endOffsets tokens ! nat i = uint (tokens ! (2 * nat i))"
    using n by (simp add: endOffsets_def)
  with arr_get_nat [OF rng] s show ?thesis by simp
qed

lemma endOffsets_mono:
  assumes "sorted_wrt (<) (endOffsets tokens)" and "0 \<le> a" "a < b" "b < int (length tokens div 2)"
  shows "endOffsets tokens ! nat a < endOffsets tokens ! nat b"
proof -
  have "nat a < nat b" using assms(2,3) by linarith
  moreover have "nat b < length (endOffsets tokens)"
    using assms(2,3,4) by (simp add: length_endOffsets)
  ultimately show ?thesis
    using assms(1) by (simp add: sorted_wrt_iff_nth_less)
qed

lemma search_spec:
  assumes len: "length tokens < 2 ^ 31" and srt: "sorted_wrt (<) (endOffsets tokens)"
    and bounds: "0 \<le> low" "low \<le> high" "high < int (length tokens div 2)"
    and lo: "0 < low \<Longrightarrow> endOffsets tokens ! nat (low - 1) \<le> offset"
    and hi: "high < int (length tokens div 2) - 1 \<Longrightarrow> offset < endOffsets tokens ! nat high"
  shows "\<exists>i. findIndex_search tokens offset low high = Some i \<and> low \<le> i \<and> i \<le> high \<and>
             (0 < i \<longrightarrow> endOffsets tokens ! nat (i - 1) \<le> offset) \<and>
             (i < int (length tokens div 2) - 1 \<longrightarrow> offset < endOffsets tokens ! nat i)"
  using bounds lo hi
proof (induction "nat (high - low)" arbitrary: low high rule: less_induct)
  case less
  show ?case
  proof (cases "low < high")
    case False
    with less.prems have eq: "low = high" by simp
    have "findIndex_search tokens offset low high = Some low"
      using False by (subst findIndex_search.simps) simp
    with eq less.prems show ?thesis by auto
  next
    case True
    define mid where "mid = low + (high - low) div 2"
    have mid: "low \<le> mid" "mid < high"
      using True by (simp_all add: mid_def)
    have mid0: "0 \<le> mid" using mid(1) less.prems(1) by simp
    have midN: "mid < int (length tokens div 2)" using mid(2) less.prems(3) by simp
    define e where "e = endOffsets tokens ! nat mid"
    have rd: "arr_get tokens (shl1 mid) = Some e"
      unfolding e_def using len mid0 midN by (rule read_end)
    have unf: "findIndex_search tokens offset low high =
        (if e = offset then Some (mid + 1)
         else if e < offset then findIndex_search tokens offset (mid + 1) high
         else findIndex_search tokens offset low mid)"
      using True rd by (subst findIndex_search.simps) (simp add: mid_def Let_def)
    show ?thesis
    proof (cases "e = offset")
      case hit: True
      have "mid + 1 < int (length tokens div 2) - 1 \<longrightarrow> offset < endOffsets tokens ! nat (mid + 1)"
      proof
        assume "mid + 1 < int (length tokens div 2) - 1"
        then have "mid + 1 < int (length tokens div 2)" by simp
        from endOffsets_mono [OF srt mid0 _ this] show "offset < endOffsets tokens ! nat (mid + 1)"
          using hit by (simp add: e_def)
      qed
      moreover have "endOffsets tokens ! nat (mid + 1 - 1) \<le> offset"
        using hit by (simp add: e_def)
      ultimately show ?thesis
        unfolding unf using hit mid by auto
    next
      case miss: False
      show ?thesis
      proof (cases "e < offset")
        case up: True
        have m: "nat (high - (mid + 1)) < nat (high - low)" using mid by linarith
        have "\<exists>i. findIndex_search tokens offset (mid + 1) high = Some i \<and> mid + 1 \<le> i \<and> i \<le> high \<and>
             (0 < i \<longrightarrow> endOffsets tokens ! nat (i - 1) \<le> offset) \<and>
             (i < int (length tokens div 2) - 1 \<longrightarrow> offset < endOffsets tokens ! nat i)"
        proof (rule less.hyps [OF m])
          show "0 \<le> mid + 1" using mid0 by simp
          show "mid + 1 \<le> high" using mid(2) by simp
          show "high < int (length tokens div 2)" by (rule less.prems(3))
          show "endOffsets tokens ! nat (mid + 1 - 1) \<le> offset"
            using up by (simp add: e_def)
          show "offset < endOffsets tokens ! nat high" if "high < int (length tokens div 2) - 1"
            using that by (rule less.prems(5))
        qed
        then show ?thesis
          unfolding unf using miss up mid(1) by auto
      next
        case down: False
        have m: "nat (mid - low) < nat (high - low)" using mid by linarith
        have "\<exists>i. findIndex_search tokens offset low mid = Some i \<and> low \<le> i \<and> i \<le> mid \<and>
             (0 < i \<longrightarrow> endOffsets tokens ! nat (i - 1) \<le> offset) \<and>
             (i < int (length tokens div 2) - 1 \<longrightarrow> offset < endOffsets tokens ! nat i)"
        proof (rule less.hyps [OF m])
          show "0 \<le> low" by (rule less.prems(1))
          show "low \<le> mid" by (rule mid(1))
          show "mid < int (length tokens div 2)" by (rule midN)
          show "endOffsets tokens ! nat (low - 1) \<le> offset" if "0 < low"
            using that by (rule less.prems(4))
          show "offset < endOffsets tokens ! nat mid"
            using miss down by (simp add: e_def)
        qed
        then show ?thesis
          unfolding unf using miss down mid(2) by auto
      qed
    qed
  qed
qed


lemma endOffsets_nonneg:
  assumes "0 \<le> i" "i < int (length tokens div 2)"
  shows "0 \<le> endOffsets tokens ! nat i"
proof -
  have "nat i < length tokens div 2" using assms by linarith
  then show ?thesis by (simp add: endOffsets_def)
qed

lemma wellformed_count: "wellformed tokens txt \<Longrightarrow> 1 \<le> length tokens div 2"
proof -
  assume wf: "wellformed tokens txt"
  then have "even (length tokens)" "length tokens \<noteq> 0"
    by (simp_all add: wellformed_def)
  then show ?thesis by presburger
qed

lemma wellformed_last:
  assumes "wellformed tokens txt"
  shows "endOffsets tokens ! nat (int (length tokens div 2) - 1) = int (length txt)"
proof -
  have N: "1 \<le> length tokens div 2" using assms by (rule wellformed_count)
  then have ne: "endOffsets tokens \<noteq> []"
    using length_endOffsets [of tokens] by auto
  have "nat (int (length tokens div 2) - 1) = length (endOffsets tokens) - 1"
    using N by (simp add: length_endOffsets)
  then have "endOffsets tokens ! nat (int (length tokens div 2) - 1) = last (endOffsets tokens)"
    using ne by (simp add: last_conv_nth)
  with assms show ?thesis by (simp add: wellformed_def)
qed

lemma getCount_new:
  "length tokens < 2 ^ 31 \<Longrightarrow> getCount (new_LineTokens tokens txt) = int (length tokens div 2)"
  by (simp add: getCount_def new_LineTokens_def ushr1_length31)

lemma getEndOffset_new:
  assumes "length tokens < 2 ^ 31" "0 \<le> i" "i < int (length tokens div 2)"
  shows "getEndOffset (new_LineTokens tokens txt) i = Some (endOffsets tokens ! nat i)"
  using read_end [OF assms] by (simp add: getEndOffset_def new_LineTokens_def)

lemma getStartOffset_new:
  assumes "length tokens < 2 ^ 31" "0 \<le> i" "i < int (length tokens div 2)"
  shows "getStartOffset (new_LineTokens tokens txt) i =
         Some (if 0 < i then endOffsets tokens ! nat (i - 1) else 0)"
proof (cases "0 < i")
  case False
  then show ?thesis by (simp add: getStartOffset_def)
next
  case True
  then have "0 \<le> i - 1" "i - 1 < int (length tokens div 2)" using assms(3) by simp_all
  from read_end [OF assms(1) this] True show ?thesis
    by (simp add: getStartOffset_def new_LineTokens_def)
qed

lemma findToken_search:
  assumes wf: "wellformed tokens txt" and len: "length tokens < 2 ^ 31"
  shows "\<exists>i. findTokenIndexAtOffset (new_LineTokens tokens txt) offset = Some i \<and>
             0 \<le> i \<and> i < int (length tokens div 2) \<and>
             (0 < i \<longrightarrow> endOffsets tokens ! nat (i - 1) \<le> offset) \<and>
             (i < int (length tokens div 2) - 1 \<longrightarrow> offset < endOffsets tokens ! nat i)"
proof -
  have N: "1 \<le> length tokens div 2" using wf by (rule wellformed_count)
  have srt: "sorted_wrt (<) (endOffsets tokens)" using wf by (simp add: wellformed_def)
  have "\<exists>i. findIndex_search tokens offset 0 (int (length tokens div 2) - 1) = Some i \<and>
             0 \<le> i \<and> i \<le> int (length tokens div 2) - 1 \<and>
             (0 < i \<longrightarrow> endOffsets tokens ! nat (i - 1) \<le> offset) \<and>
             (i < int (length tokens div 2) - 1 \<longrightarrow> offset < endOffsets tokens ! nat i)"
    using len srt
  proof (rule search_spec)
    show "(0::int) \<le> 0" by simp
    show "0 \<le> int (length tokens div 2) - 1" using N by simp
    show "int (length tokens div 2) - 1 < int (length tokens div 2)" by simp
    show "endOffsets tokens ! nat (0 - 1) \<le> offset" if "(0::int) < 0" using that by simp
    show "offset < endOffsets tokens ! nat (int (length tokens div 2) - 1)"
      if "int (length tokens div 2) - 1 < int (length tokens div 2) - 1" using that by simp
  qed
  moreover have "findTokenIndexAtOffset (new_LineTokens tokens txt) offset =
        findIndex_search tokens offset 0 (int (length tokens div 2) - 1)"
    by (simp add: findTokenIndexAtOffset_def findIndexInSegmentsArray_def new_LineTokens_def
        ushr1_length31 [OF len])
  ultimately show ?thesis by auto
qed


lemma wellformed_empty_first: "wellformed [0, 1, 3, 2] [97, 98, 99]"
  by (simp add: wellformed_def endOffsets_def upt_rec)

lemma wellformed_example: "wellformed example_tokens example_text"
  by (simp add: wellformed_def endOffsets_def upt_rec example_tokens_def example_text_def)

lemmas search_eval = findTokenIndexAtOffset_def findIndexInSegmentsArray_def new_LineTokens_def
  findIndex_search.simps ushr1_def shl1_def arr_get_def getEndOffset_def getStartOffset_def
  getCount_def

text \<open>
  C2. For a well-formed buffer of fewer than \<open>2^31\<close> array elements and every offset,
  \<open>findTokenIndexAtOffset\<close> answers an index \<open>i\<close> of the buffer, with
  \<open>getStartOffset i \<le> offset\<close> when the offset is not negative, and with
  \<open>offset < getEndOffset i\<close> or \<open>i = N - 1\<close>. When the offset is the end offset of a
  token \<open>j < N - 1\<close> the answer is \<open>j + 1\<close>; when the offset is at or beyond the
  length of the text the answer is \<open>N - 1\<close>; when the offset is zero or negative the
  answer is 0, unless the offset is the end offset of the first token and that token is
  not the last: an empty first token, where the answer is the next token, 1.
\<close>

theorem C2_findTokenIndexAtOffset:
  assumes wf: "wellformed tokens txt" and len: "length tokens < 2 ^ 31"
  shows "\<exists>i s e. findTokenIndexAtOffset (new_LineTokens tokens txt) offset = Some i \<and>
           0 \<le> i \<and> i < getCount (new_LineTokens tokens txt) \<and>
           getStartOffset (new_LineTokens tokens txt) i = Some s \<and>
           getEndOffset (new_LineTokens tokens txt) i = Some e \<and>
           (0 \<le> offset \<longrightarrow> s \<le> offset) \<and>
           (offset < e \<or> i = getCount (new_LineTokens tokens txt) - 1) \<and>
           (\<forall>j. 0 \<le> j \<and> j < getCount (new_LineTokens tokens txt) - 1 \<and>
                getEndOffset (new_LineTokens tokens txt) j = Some offset \<longrightarrow> i = j + 1) \<and>
           (int (length txt) \<le> offset \<longrightarrow> i = getCount (new_LineTokens tokens txt) - 1) \<and>
           (offset \<le> 0 \<and>
            \<not> (getEndOffset (new_LineTokens tokens txt) 0 = Some offset \<and>
               1 < getCount (new_LineTokens tokens txt)) \<longrightarrow> i = 0)"
proof -
  define N where "N = int (length tokens div 2)"
  define E where "E k = endOffsets tokens ! nat k" for k :: int
  define lt where "lt = new_LineTokens tokens txt"
  have cnt: "getCount lt = N"
    unfolding lt_def N_def using len by (rule getCount_new)
  have srt: "sorted_wrt (<) (endOffsets tokens)" using wf by (simp add: wellformed_def)
  have mono: "E a < E b" if "0 \<le> a" "a < b" "b < N" for a b
    unfolding E_def using srt that(1,2) that(3) [unfolded N_def] by (rule endOffsets_mono)
  have nonneg: "0 \<le> E a" if "0 \<le> a" "a < N" for a
    unfolding E_def using that(1) that(2) [unfolded N_def] by (rule endOffsets_nonneg)
  have lastE: "E (N - 1) = int (length txt)"
    unfolding E_def N_def using wf by (rule wellformed_last)
  have getE: "getEndOffset lt a = Some (E a)" if "0 \<le> a" "a < N" for a
    unfolding E_def lt_def using len that(1) that(2) [unfolded N_def] by (rule getEndOffset_new)
  have getS: "getStartOffset lt a = Some (if 0 < a then E (a - 1) else 0)" if "0 \<le> a" "a < N" for a
    unfolding E_def lt_def using len that(1) that(2) [unfolded N_def] by (rule getStartOffset_new)
  from findToken_search [OF wf len, of offset]
  obtain i where res: "findTokenIndexAtOffset lt offset = Some i"
    and i0: "0 \<le> i" and iN: "i < N"
    and lo: "0 < i \<Longrightarrow> E (i - 1) \<le> offset"
    and hi: "i < N - 1 \<Longrightarrow> offset < E i"
    unfolding lt_def N_def E_def by blast
  have start: "0 \<le> offset \<longrightarrow> (if 0 < i then E (i - 1) else 0) \<le> offset"
    using lo by simp
  have "end": "offset < E i \<or> i = N - 1"
    using hi iN by linarith
  have tie: "i = j + 1" if j: "0 \<le> j" "j < N - 1" "getEndOffset lt j = Some offset" for j
  proof -
    have jN: "j < N" using j(2) by simp
    have Ej: "E j = offset" using getE [OF j(1) jN] j(3) by simp
    have "\<not> i \<le> j"
    proof
      assume le: "i \<le> j"
      then have "i < N - 1" using j(2) by simp
      then have "offset < E i" by (rule hi)
      moreover have "E i \<le> E j"
      proof (cases "i = j")
        case True then show ?thesis by simp
      next
        case False
        with le have "i < j" by simp
        with i0 have "E i < E j" using jN by (rule mono)
        then show ?thesis by simp
      qed
      ultimately show False using Ej by simp
    qed
    moreover have "\<not> j + 1 < i"
    proof
      assume gt: "j + 1 < i"
      then have "0 < i" using j(1) by simp
      then have "E (i - 1) \<le> offset" by (rule lo)
      moreover have "E j < E (i - 1)"
        using j(1) by (rule mono) (use gt iN in simp_all)
      ultimately show False using Ej by simp
    qed
    ultimately show ?thesis by simp
  qed
  have beyond: "i = N - 1" if "int (length txt) \<le> offset"
  proof (rule ccontr)
    assume "i \<noteq> N - 1"
    with iN have lt1: "i < N - 1" by simp
    then have "offset < E i" by (rule hi)
    moreover have "E i < E (N - 1)"
      using i0 lt1 by (rule mono) simp
    ultimately show False using that lastE by simp
  qed
  have zero: "i = 0" if le0: "offset \<le> 0" and ex: "\<not> (getEndOffset lt 0 = Some offset \<and> 1 < N)"
  proof (rule ccontr)
    assume "i \<noteq> 0"
    with i0 have pos: "0 < i" by simp
    then have a: "E (i - 1) \<le> offset" by (rule lo)
    have b: "0 \<le> E (i - 1)" using pos iN by (intro nonneg) simp_all
    from a b le0 have off0: "offset = 0" and Ei: "E (i - 1) = 0" by simp_all
    have "i - 1 = 0"
    proof (rule ccontr)
      assume "i - 1 \<noteq> 0"
      with pos have "0 < i - 1" by simp
      with mono [of 0 "i - 1"] iN have "E 0 < E (i - 1)" by simp
      moreover have "0 \<le> E 0" using iN pos by (intro nonneg) simp_all
      ultimately show False using Ei by simp
    qed
    then have i1: "i = 1" by simp
    then have N1: "1 < N" using iN by simp
    then have "getEndOffset lt 0 = Some (E 0)" by (intro getE) simp_all
    with Ei i1 off0 N1 ex show False by simp
  qed
  show ?thesis
    unfolding lt_def [symmetric] cnt
    using res i0 iN getS [OF i0 iN] getE [OF i0 iN] start "end" tie beyond zero
    by blast
qed



theorem C2_findTokenIndexAtOffset_counterexample:
  "wellformed [0, 1, 3, 2] [97, 98, 99] \<and>
   (0::int) \<le> int (length [97, 98, 99 :: 16 word]) \<and>
   getCount (new_LineTokens [0, 1, 3, 2] [97, 98, 99]) = 2 \<and>
   getEndOffset (new_LineTokens [0, 1, 3, 2] [97, 98, 99]) 0 = Some 0 \<and>
   findTokenIndexAtOffset (new_LineTokens [0, 1, 3, 2] [97, 98, 99]) 0 = Some 1 \<and>
   findTokenIndexAtOffset (new_LineTokens [0, 1, 3, 2] [97, 98, 99]) 0 \<noteq> Some 0"
  using wellformed_empty_first by (simp add: search_eval)

theorem C2_findTokenIndexAtOffset_witness:
  "wellformed example_tokens example_text \<and> length example_tokens < 2 ^ 31 \<and>
   getCount example_buffer = 3 \<and>
   getEndOffset example_buffer 0 = Some 3 \<and>
   findTokenIndexAtOffset example_buffer 3 = Some 1 \<and>
   getStartOffset example_buffer 1 = Some 3 \<and> getEndOffset example_buffer 1 = Some 7 \<and>
   findTokenIndexAtOffset example_buffer 9 = Some 2 \<and>
   findTokenIndexAtOffset example_buffer 0 = Some 0"
proof -
  have len: "length example_tokens < 2 ^ 31"
    by (simp add: example_tokens_def)
  have cnt: "getCount example_buffer = 3"
    by (simp add: example_buffer_def example_tokens_def search_eval)
  have e0: "getEndOffset example_buffer 0 = Some 3"
    by (simp add: example_buffer_def example_tokens_def search_eval)
  have tlen: "int (length example_text) = 9"
    by (simp add: example_text_def)
  note inst = C2_findTokenIndexAtOffset [OF wellformed_example len, folded example_buffer_def,
      unfolded cnt tlen]
  from inst [of 3] e0 have a: "findTokenIndexAtOffset example_buffer 3 = Some 1"
    by fastforce
  from inst [of 9] have b: "findTokenIndexAtOffset example_buffer 9 = Some 2"
    by fastforce
  from inst [of 0] e0 have c: "findTokenIndexAtOffset example_buffer 0 = Some 0"
    by fastforce
  have "getStartOffset example_buffer 1 = Some 3" "getEndOffset example_buffer 1 = Some 7"
    by (simp_all add: example_buffer_def example_tokens_def search_eval)
  with wellformed_example len cnt e0 a b c show ?thesis
    by (intro conjI)
qed


end
